theory Spec2Isabelle
  imports Main "HOL-Library.Word"
begin

section \<open>Data model of the Kafka consumer (kafka/consumer)\<close>

text \<open>
  The Go errors the consumer handles: a plain error made by \<open>errors.New\<close>, a
  \<open>kafka.Error\<close> carrying its numeric code, and an error wrapped with a message by
  \<open>errors.Wrap\<close>. A Go \<open>error\<close> that may be nil is an \<open>error option\<close>.
\<close>

datatype error = GoError string | KafkaError int | Wrapped error string

text \<open>\<open>errors.Wrap\<close> of github.com/pkg/errors returns nil when the error it is given is nil.\<close>

definition Wrap :: "error option \<Rightarrow> string \<Rightarrow> error option" where
  "Wrap err msg = (case err of None \<Rightarrow> None | Some e \<Rightarrow> Some (Wrapped e msg))"

text \<open>\<open>kafka.ErrPartitionEOF\<close> is librdkafka's RD_KAFKA_RESP_ERR__PARTITION_EOF.\<close>

definition ErrPartitionEOF :: int where
  "ErrPartitionEOF = - 191"

text \<open>
  \<open>kafka.TopicPartition\<close>: the topic is a \<open>*string\<close> (nil is \<open>None\<close>), the partition an
  \<open>int32\<close>, the offset a \<open>kafka.Offset\<close>, which is an \<open>int64\<close>, and an embedded error.
\<close>

type_synonym kafka_Offset = "64 word"

record TopicPartition =
  tp_Topic :: "string option"
  tp_Partition :: "32 word"
  tp_Offset :: kafka_Offset
  tp_Error :: "error option"

record Message =
  msg_TopicPartition :: TopicPartition
  msg_Value :: string

text \<open>The variants of \<open>kafka.Event\<close> that the type switch of \<open>listen\<close> tells apart.\<close>

datatype event =
    AssignedPartitions "TopicPartition list"
  | RevokedPartitions "TopicPartition list"
  | MessageEvent Message
  | PartitionEOF TopicPartition
  | OffsetsCommitted "error option" "TopicPartition list"
  | ErrorEvent error
  | UnknownEvent string

datatype level = Debug | Info | Warn | Error

datatype State = StateRun | StateClosed

text \<open>
  Everything a Consumer does to the outside is recorded, in order, as an action: log
  lines, notifications of the observable, operations on its context, mutex, wait group and
  ticker, calls of the broker reader (\<open>kafka.Consumer\<close>) and calls of the user's callbacks.
\<close>

datatype action =
    Log level string
  | Notify State
  | CtxCancel
  | MuLock
  | MuUnlock
  | WgAdd
  | WgDone
  | WgWait
  | NewTicker int
  | TickerStop
  | SubscribeTopics "string list"
  | Unsubscribe
  | Unassign
  | Close
  | Committed "TopicPartition list" int
  | Assign "TopicPartition list"
  | CommitOffsets "TopicPartition list"
  | Pause "TopicPartition list"
  | Resume "TopicPartition list"
  | GetMetadata "string option" bool int
  | OnError error
  | OnProcess Message
  | OnCommit string "32 word" kafka_Offset int
  | OnRevoke "TopicPartition list"
  | OnRebalance "TopicPartition list"
  | GoResumeTask int "TopicPartition list"

text \<open>
  A call that leaves the consumer's code (the reader, a callback) either returns a
  value or panics with a value.
\<close>

datatype 'a outcome = Returns 'a | Panics string

text \<open>
  The broker reader and the user's callbacks are parameters of the model. Each is a
  function of the actions recorded so far and of the call's arguments, so a reader or a
  callback may answer differently at each call.
\<close>

record env =
  r_SubscribeTopics :: "action list \<Rightarrow> string list \<Rightarrow> error option outcome"
  r_Unsubscribe :: "action list \<Rightarrow> error option outcome"
  r_Unassign :: "action list \<Rightarrow> error option outcome"
  r_Close :: "action list \<Rightarrow> error option outcome"
  r_Committed :: "action list \<Rightarrow> TopicPartition list \<Rightarrow> int \<Rightarrow> (TopicPartition list \<times> error option) outcome"
  r_Assign :: "action list \<Rightarrow> TopicPartition list \<Rightarrow> error option outcome"
  r_CommitOffsets :: "action list \<Rightarrow> TopicPartition list \<Rightarrow> (TopicPartition list \<times> error option) outcome"
  r_Pause :: "action list \<Rightarrow> TopicPartition list \<Rightarrow> error option outcome"
  r_Resume :: "action list \<Rightarrow> TopicPartition list \<Rightarrow> error option outcome"
  r_GetMetadata :: "action list \<Rightarrow> string option \<Rightarrow> bool \<Rightarrow> int \<Rightarrow> error option outcome"
  cb_onError :: "action list \<Rightarrow> error \<Rightarrow> unit outcome"
  cb_onProcess :: "action list \<Rightarrow> Message \<Rightarrow> error option outcome"
  cb_onCommit :: "action list \<Rightarrow> string \<Rightarrow> 32 word \<Rightarrow> kafka_Offset \<Rightarrow> int \<Rightarrow> unit outcome"
  cb_onRevoke :: "action list \<Rightarrow> TopicPartition list \<Rightarrow> unit outcome"
  cb_onRebalance :: "action list \<Rightarrow> TopicPartition list \<Rightarrow> unit outcome"

subsection \<open>The offset tracker\<close>

text \<open>
  Modelled from the spec: the type \<open>offset\<close> with \<open>newOffset\<close>, \<open>Add\<close>, \<open>Get\<close>,
  \<open>Remove\<close>, \<open>Clear\<close>, \<open>Counter\<close> and \<open>getPartitionKey\<close> is not among the sources. The
  spec describes it as a mapping from the key (topic, partition) to the pair
  (offset, processed count): \<open>Add\<close> ensures an entry for the key, stores the offset given
  and increments the count; \<open>Get\<close> returns the list of partition offsets and the count of
  each key; \<open>Remove\<close> deletes the entry of the key whatever its offset; \<open>Clear\<close> removes
  every entry; \<open>Counter\<close> is the sum of the counts. The entries are kept in the order of
  their first \<open>Add\<close>.
\<close>

type_synonym PartitionKey = "string option \<times> 32 word"

type_synonym offset = "(PartitionKey \<times> kafka_Offset \<times> int) list"

definition getPartitionKey :: "string option \<Rightarrow> 32 word \<Rightarrow> PartitionKey" where
  "getPartitionKey topic part = (topic, part)"

definition newOffset :: offset where
  "newOffset = []"

fun Add_entry :: "PartitionKey \<Rightarrow> kafka_Offset \<Rightarrow> offset \<Rightarrow> offset" where
  "Add_entry k off [] = [(k, off, 1)]"
| "Add_entry k off ((k', off', n) # rest) =
     (if k' = k then (k', off, n + 1) # rest else (k', off', n) # Add_entry k off rest)"

definition Add :: "TopicPartition \<Rightarrow> offset \<Rightarrow> offset" where
  "Add p t = Add_entry (getPartitionKey (tp_Topic p) (tp_Partition p)) (tp_Offset p) t"

definition Get :: "offset \<Rightarrow> TopicPartition list \<times> (PartitionKey \<times> int) list" where
  "Get t =
     (map (\<lambda>((topic, part), off, n).
            \<lparr>tp_Topic = topic, tp_Partition = part, tp_Offset = off, tp_Error = None\<rparr>) t,
      map (\<lambda>(k, off, n). (k, n)) t)"

definition Remove :: "TopicPartition \<Rightarrow> offset \<Rightarrow> offset" where
  "Remove p t = filter (\<lambda>(k, off, n). k \<noteq> getPartitionKey (tp_Topic p) (tp_Partition p)) t"

definition Clear :: "offset \<Rightarrow> offset" where
  "Clear t = []"

definition Counter :: "offset \<Rightarrow> int" where
  "Counter t = sum_list (map (\<lambda>(k, off, n). n) t)"

text \<open>Reading a Go map at a key it does not hold gives the zero value.\<close>

definition count_at :: "(PartitionKey \<times> int) list \<Rightarrow> PartitionKey \<Rightarrow> int" where
  "count_at count k = (case map_of count k of None \<Rightarrow> 0 | Some n \<Rightarrow> n)"

text \<open>
  Modelled from the spec: \<open>checkPartitions\<close> is not among the sources. The spec: given a
  list of partition descriptors, return the first embedded error found, or none.
\<close>

fun checkPartitions :: "TopicPartition list \<Rightarrow> error option" where
  "checkPartitions [] = None"
| "checkPartitions (p # ps) =
     (case tp_Error p of Some e \<Rightarrow> Some e | None \<Rightarrow> checkPartitions ps)"

section \<open>Sequential programs over the Consumer's state\<close>

text \<open>
  The state a Consumer's code reads and writes: the actions recorded so far, whether its
  context is cancelled, and the offset tracker that \<open>listen\<close> creates and hands to
  every handler by pointer.
\<close>

record world =
  trace :: "action list"
  ctxDone :: bool
  consumerOffsets :: offset

text \<open>
  A piece of Go code run from a state ends in one of three ways: it returns a value, it
  panics with a value, or it blocks forever (a \<open>select\<close> with no case ever ready). The
  state it leaves behind is kept in each case, since the tracker is mutated in place.
\<close>

datatype 'a result = Ok 'a | Panic string | Blocked

type_synonym 'a prog = "world \<Rightarrow> 'a result \<times> world"

definition ret :: "'a \<Rightarrow> 'a prog" where
  "ret x s = (Ok x, s)"

definition andThen :: "'a prog \<Rightarrow> ('a \<Rightarrow> 'b prog) \<Rightarrow> 'b prog" where
  "andThen m f s =
     (case m s of
        (Ok x, s') \<Rightarrow> f x s'
      | (Panic p, s') \<Rightarrow> (Panic p, s')
      | (Blocked, s') \<Rightarrow> (Blocked, s'))"

definition emit :: "action \<Rightarrow> unit prog" where
  "emit a s = (Ok (), s\<lparr>trace := trace s @ [a]\<rparr>)"

text \<open>A call of the reader or of a callback: the call is recorded, then it returns or panics.\<close>

definition call :: "action \<Rightarrow> (action list \<Rightarrow> 'a outcome) \<Rightarrow> 'a prog" where
  "call a f s =
     (case f (trace s) of
        Returns x \<Rightarrow> (Ok x, s\<lparr>trace := trace s @ [a]\<rparr>)
      | Panics p \<Rightarrow> (Panic p, s\<lparr>trace := trace s @ [a]\<rparr>))"

text \<open>
  \<open>defer d\<close> followed by the body \<open>m\<close>: when \<open>m\<close> returns or panics, \<open>d\<close> runs. If \<open>d\<close>
  itself panics, its panic is the one that goes on; a body that blocks never reaches
  its deferred calls.
\<close>

definition deferring :: "unit prog \<Rightarrow> 'a prog \<Rightarrow> 'a prog" where
  "deferring d m s =
     (case m s of
        (Blocked, s') \<Rightarrow> (Blocked, s')
      | (r, s') \<Rightarrow>
          (case d s' of
             (Ok u, s'') \<Rightarrow> (r, s'')
           | (Panic p, s'') \<Rightarrow> (Panic p, s'')
           | (Blocked, s'') \<Rightarrow> (Blocked, s'')))"

definition modify_offsets :: "(offset \<Rightarrow> offset) \<Rightarrow> unit prog" where
  "modify_offsets f s = (Ok (), s\<lparr>consumerOffsets := f (consumerOffsets s)\<rparr>)"

text \<open>The fields of \<open>Consumer\<close> that its methods read.\<close>

record Consumer =
  commitOffsetCount :: int
  commitOffsetDuration :: int
  topics :: "string list"

definition read_offsets :: "(offset \<Rightarrow> 'a prog) \<Rightarrow> 'a prog" where
  "read_offsets f s = f (consumerOffsets s) s"

definition cancel :: "unit prog" where
  "cancel s = (Ok (), s\<lparr>trace := trace s @ [CtxCancel], ctxDone := True\<rparr>)"

text \<open>
  A deferred function that calls \<open>recover\<close>: a panic of the body stops there, the
  handler \<open>h\<close> runs on the recovered value, and the function returns \<open>zero\<close>, the zero
  value of its unnamed result.
\<close>

definition recovering :: "'a \<Rightarrow> (string \<Rightarrow> unit prog) \<Rightarrow> 'a prog \<Rightarrow> 'a prog" where
  "recovering zero h m s =
     (case m s of
        (Panic p, s') \<Rightarrow>
          (case h p s' of
             (Ok u, s'') \<Rightarrow> (Ok zero, s'')
           | (Panic q, s'') \<Rightarrow> (Panic q, s'')
           | (Blocked, s'') \<Rightarrow> (Blocked, s''))
      | (r, s') \<Rightarrow> (r, s'))"

section \<open>The Consumer (kafka/consumer/consumer.go)\<close>

definition onError :: "env \<Rightarrow> error \<Rightarrow> unit prog" where
  "onError env err = call (OnError err) (\<lambda>h. cb_onError env h err)"

text \<open>
  The loop of \<open>commitOffsets\<close> over the partitions the broker reports as committed;
  \<open>topic\<close> is the variable declared before the loop, which keeps its value when an
  item has no topic.
\<close>

fun commit_each :: "env \<Rightarrow> (PartitionKey \<times> int) list \<Rightarrow> TopicPartition list \<Rightarrow> string \<Rightarrow> unit prog" where
  "commit_each env count [] topic = ret ()"
| "commit_each env count (item # rest) topic =
     andThen (modify_offsets (Remove item)) (\<lambda>_.
       let topic' = (case tp_Topic item of Some t \<Rightarrow> t | None \<Rightarrow> topic);
           countCommitted = count_at count (getPartitionKey (tp_Topic item) (tp_Partition item))
       in andThen (call (OnCommit topic' (tp_Partition item) (tp_Offset item) countCommitted)
                    (\<lambda>h. cb_onCommit env h topic' (tp_Partition item) (tp_Offset item) countCommitted))
            (\<lambda>_. commit_each env count rest topic'))"

definition commitOffsets :: "env \<Rightarrow> unit prog" where
  "commitOffsets env =
     read_offsets (\<lambda>consumerOffsets.
       case Get consumerOffsets of (list, count) \<Rightarrow>
         if length list > 0 then
           andThen (call (CommitOffsets list) (\<lambda>h. r_CommitOffsets env h list)) (\<lambda>(success, err).
             case err of
               Some e \<Rightarrow>
                 andThen (emit (Log Error ''failed to commit'')) (\<lambda>_. onError env e)
             | None \<Rightarrow>
                 (case checkPartitions success of
                    Some e \<Rightarrow>
                      andThen (emit (Log Error ''failed to commit'')) (\<lambda>_. onError env e)
                  | None \<Rightarrow>
                      andThen (emit (Log Debug ''success'')) (\<lambda>_.
                        commit_each env count success [])))
         else ret ())"

text \<open>The loop of \<open>handleRebalance\<close> over the committed offsets the broker returned.\<close>

definition reconcile :: "TopicPartition \<Rightarrow> TopicPartition" where
  "reconcile item = (if 0 \<le>s tp_Offset item then item\<lparr>tp_Offset := tp_Offset item + 1\<rparr> else item)"

definition handleRebalance :: "env \<Rightarrow> TopicPartition list \<Rightarrow> error option prog" where
  "handleRebalance env partitions =
     andThen (commitOffsets env) (\<lambda>_.
     andThen (modify_offsets Clear) (\<lambda>_.
       case checkPartitions partitions of
         Some err \<Rightarrow>
           andThen (emit (Log Error ''failed to check assigned partitions'')) (\<lambda>_.
           andThen (onError env err) (\<lambda>_. ret (Some err)))
       | None \<Rightarrow>
           andThen (call (Committed partitions 5000) (\<lambda>h. r_Committed env h partitions 5000))
             (\<lambda>(committedOffsets, err).
               case err of
                 Some e \<Rightarrow>
                   andThen (emit (Log Error ''failed to read committed offsets'')) (\<lambda>_.
                   andThen (onError env e) (\<lambda>_. ret (Some e)))
               | None \<Rightarrow>
                   andThen (call (Assign (map reconcile committedOffsets))
                              (\<lambda>h. r_Assign env h (map reconcile committedOffsets))) (\<lambda>err.
                     case err of
                       Some e \<Rightarrow>
                         andThen (emit (Log Error ''failed to set assigned'')) (\<lambda>_.
                         andThen (onError env e) (\<lambda>_. ret (Some e)))
                     | None \<Rightarrow>
                         andThen (call (OnRebalance partitions) (\<lambda>h. cb_onRebalance env h partitions)) (\<lambda>_.
                         andThen (emit (Log Info ''success'')) (\<lambda>_. ret None))))))"

definition handleRevoke :: "env \<Rightarrow> TopicPartition list \<Rightarrow> error option prog" where
  "handleRevoke env partitions =
     andThen (commitOffsets env) (\<lambda>_.
     andThen (modify_offsets Clear) (\<lambda>_.
       case checkPartitions partitions of
         Some err \<Rightarrow>
           andThen (emit (Log Error ''failed to check revoked partitions'')) (\<lambda>_.
           andThen (onError env err) (\<lambda>_. ret (Some err)))
       | None \<Rightarrow>
           andThen (call Unassign (r_Unassign env)) (\<lambda>err.
             case err of
               Some e \<Rightarrow>
                 andThen (emit (Log Error ''failed to unassign'')) (\<lambda>_.
                 andThen (onError env e) (\<lambda>_. ret (Some e)))
             | None \<Rightarrow>
                 andThen (call (OnRevoke partitions) (\<lambda>h. cb_onRevoke env h partitions)) (\<lambda>_.
                 andThen (emit (Log Info ''success'')) (\<lambda>_. ret None)))))"

definition handleMessage :: "env \<Rightarrow> Consumer \<Rightarrow> Message \<Rightarrow> error option prog" where
  "handleMessage env c e =
     (case tp_Error (msg_TopicPartition e) of
        Some err \<Rightarrow>
          andThen (emit (Log Error ''failed to check'')) (\<lambda>_.
          andThen (onError env err) (\<lambda>_. ret (Some err)))
      | None \<Rightarrow>
          andThen (call (OnProcess e) (\<lambda>h. cb_onProcess env h e)) (\<lambda>r.
            case r of
              Some err \<Rightarrow>
                andThen (emit (Log Error ''failed to process message'')) (\<lambda>_. ret (Some err))
            | None \<Rightarrow>
                andThen (modify_offsets (Add (msg_TopicPartition e))) (\<lambda>_.
                andThen (if commitOffsetCount c > 0
                         then read_offsets (\<lambda>consumerOffsets.
                                if Counter consumerOffsets \<ge> commitOffsetCount c
                                then commitOffsets env else ret ())
                         else ret ()) (\<lambda>_.
                andThen (emit (Log Debug ''success'')) (\<lambda>_. ret None)))))"

definition handlePartitionEOF :: "env \<Rightarrow> TopicPartition \<Rightarrow> error option prog" where
  "handlePartitionEOF env e =
     andThen (commitOffsets env) (\<lambda>_.
     andThen (modify_offsets Clear) (\<lambda>_.
       case tp_Error e of
         Some err \<Rightarrow>
           if err = KafkaError ErrPartitionEOF
           then andThen (emit (Log Info ''success'')) (\<lambda>_. ret None)
           else andThen (emit (Log Error ''failed to check'')) (\<lambda>_.
                andThen (onError env err) (\<lambda>_. ret (Some err)))
       | None \<Rightarrow> andThen (emit (Log Info ''success'')) (\<lambda>_. ret None)))"

definition handleOffsetCommitted :: "env \<Rightarrow> error option \<Rightarrow> TopicPartition list \<Rightarrow> error option prog" where
  "handleOffsetCommitted env eError eOffsets =
     (case eError of
        Some err \<Rightarrow>
          andThen (emit (Log Error ''committed offsets'')) (\<lambda>_.
          andThen (onError env err) (\<lambda>_. ret (Some err)))
      | None \<Rightarrow>
          (case checkPartitions eOffsets of
             Some err \<Rightarrow>
               andThen (emit (Log Error ''failed to check'')) (\<lambda>_.
               andThen (onError env err) (\<lambda>_. ret (Some err)))
           | None \<Rightarrow> andThen (emit (Log Info ''success'')) (\<lambda>_. ret None)))"

text \<open>
  One turn of the \<open>select\<close> in \<open>listen\<close>: the context is done (another goroutine has
  cancelled it) and that case is taken, the commit ticker fires, or the reader delivers
  an event. Which case is taken at each turn is an input of the model; when the inputs
  are used up the \<open>select\<close> blocks.
\<close>

datatype selected = SelDone | SelTick | SelEvent event

definition dispatch :: "env \<Rightarrow> Consumer \<Rightarrow> event \<Rightarrow> error option prog" where
  "dispatch env c ev =
     (case ev of
        AssignedPartitions ps \<Rightarrow> handleRebalance env ps
      | RevokedPartitions ps \<Rightarrow> handleRevoke env ps
      | MessageEvent m \<Rightarrow> handleMessage env c m
      | PartitionEOF p \<Rightarrow> handlePartitionEOF env p
      | OffsetsCommitted err offsets \<Rightarrow> handleOffsetCommitted env err offsets
      | ErrorEvent e \<Rightarrow>
          andThen (emit (Log Error ''error event'')) (\<lambda>_.
          andThen (onError env e) (\<lambda>_. ret None))
      | UnknownEvent payload \<Rightarrow>
          andThen (emit (Log Error ''unknown event'')) (\<lambda>_. ret None))"

fun listen_loop :: "env \<Rightarrow> Consumer \<Rightarrow> selected list \<Rightarrow> error option prog" where
  "listen_loop env c [] = (\<lambda>s. (Blocked, s))"
| "listen_loop env c (SelDone # rest) = (\<lambda>s. (Ok None, s\<lparr>ctxDone := True\<rparr>))"
| "listen_loop env c (SelTick # rest) =
     andThen (commitOffsets env) (\<lambda>_. listen_loop env c rest)"
| "listen_loop env c (SelEvent ev # rest) =
     andThen (dispatch env c ev) (\<lambda>err.
       case err of Some e \<Rightarrow> ret (Some e) | None \<Rightarrow> listen_loop env c rest)"

text \<open>The deferred closure of \<open>listen\<close> that unsubscribes, unassigns and closes the reader.\<close>

definition listen_closing :: "env \<Rightarrow> unit prog" where
  "listen_closing env =
     deferring (emit (Log Info ''done''))
       (andThen (emit (Log Info ''closing...'')) (\<lambda>_.
        deferring (emit (Log Info ''success closed''))
          (andThen (call Unsubscribe (r_Unsubscribe env)) (\<lambda>errUnsubscribe.
           andThen (case errUnsubscribe of
                      Some e \<Rightarrow> emit (Log Error ''failed to unsubscribe'')
                    | None \<Rightarrow>
                        andThen (call Unassign (r_Unassign env)) (\<lambda>errUnassign.
                          case errUnassign of
                            Some e \<Rightarrow> emit (Log Error ''failed to unassign'')
                          | None \<Rightarrow> ret ())) (\<lambda>_.
           andThen (call Close (r_Close env)) (\<lambda>err.
             case err of
               Some e \<Rightarrow> emit (Log Error ''failed to close reader'')
             | None \<Rightarrow> ret ()))))))"

text \<open>Durations are counted in nanoseconds, as \<open>time.Duration\<close> does.\<close>

definition Second :: int where
  "Second = 1000000000"

definition listen :: "env \<Rightarrow> Consumer \<Rightarrow> selected list \<Rightarrow> error option prog" where
  "listen env c sched =
     andThen (emit (Log Info ''start listener'')) (\<lambda>_.
     andThen (call (SubscribeTopics (topics c)) (\<lambda>h. r_SubscribeTopics env h (topics c))) (\<lambda>err.
       case err of
         Some e \<Rightarrow> ret (Wrap (Some e) ''subscribe to topics failed'')
       | None \<Rightarrow>
           deferring (listen_closing env)
             (andThen (modify_offsets (\<lambda>_. newOffset)) (\<lambda>_.
              deferring (commitOffsets env)
                (andThen (emit (NewTicker (if commitOffsetDuration c \<le> 0 then Second * 5
                                           else commitOffsetDuration c))) (\<lambda>_.
                 deferring (emit TickerStop)
                   (listen_loop env c sched)))))))"

text \<open>
  \<open>Start\<close> after its deferred calls are registered: the check of the context, the
  notification of \<open>StateRun\<close> and the event loop.
\<close>

definition Start_body :: "env \<Rightarrow> Consumer \<Rightarrow> selected list \<Rightarrow> error option prog" where
  "Start_body env c sched s =
     (if ctxDone s
      then andThen (emit (Log Error ''failed to start consumer'')) (\<lambda>_.
             ret (Some (GoError ''consumer already closed''))) s
      else andThen (emit (Notify StateRun)) (\<lambda>_. listen env c sched) s)"

text \<open>\<open>fmt.Sprintln\<close> of the recovered value ends the line.\<close>

definition log_panic :: "string \<Rightarrow> unit prog" where
  "log_panic p = emit (Log Error (''panic:'' @ p @ [CHR 0x0A]))"

definition Start :: "env \<Rightarrow> Consumer \<Rightarrow> selected list \<Rightarrow> error option prog" where
  "Start env c sched =
     deferring (emit (Notify StateClosed))
       (andThen (emit MuLock) (\<lambda>_.
        deferring (andThen cancel (\<lambda>_. emit MuUnlock))
          (andThen (emit WgAdd) (\<lambda>_.
           deferring (emit WgDone)
             (andThen (emit (Log Info ''start'')) (\<lambda>_.
              recovering None log_panic (Start_body env c sched)))))))"

text \<open>\<open>Stop\<close> called while no \<open>Start\<close> of this Consumer is running: nothing to wait for.\<close>

definition Stop :: "unit prog" where
  "Stop =
     andThen cancel (\<lambda>_.
     andThen (emit MuLock) (\<lambda>_.
     deferring (emit MuUnlock) (emit WgWait)))"

text \<open>
  The goroutine that \<open>Sleep\<close> starts, from the moment \<open>time.Sleep(delay)\<close> has
  returned. It runs on its own; the state it starts from is the Consumer's state at
  that moment. Logging the topic of a partition dereferences the pointer.
\<close>

fun probe_each :: "env \<Rightarrow> TopicPartition list \<Rightarrow> unit prog" where
  "probe_each env [] = ret ()"
| "probe_each env (p # rest) =
     andThen (call (GetMetadata (tp_Topic p) False 2000)
                (\<lambda>h. r_GetMetadata env h (tp_Topic p) False 2000)) (\<lambda>err.
     andThen (case err of
                Some e \<Rightarrow>
                  (case tp_Topic p of
                     None \<Rightarrow> (\<lambda>s. (Panic ''invalid memory address or nil pointer dereference'', s))
                   | Some t \<Rightarrow> emit (Log Warn ''may be partition haven't been resumed''))
              | None \<Rightarrow> ret ()) (\<lambda>_.
     probe_each env rest))"

definition resume_task :: "env \<Rightarrow> TopicPartition list \<Rightarrow> unit prog" where
  "resume_task env partitions s =
     (if ctxDone s
      then emit (Log Warn ''service already stopped'') s
      else andThen (call (Resume partitions) (\<lambda>h. r_Resume env h partitions)) (\<lambda>err.
           andThen (case err of
                      Some e \<Rightarrow> emit (Log Warn ''failed to resume consumer'')
                    | None \<Rightarrow> ret ()) (\<lambda>_.
           probe_each env partitions)) s)"

definition Sleep :: "env \<Rightarrow> int \<Rightarrow> TopicPartition list \<Rightarrow> error option prog" where
  "Sleep env delay partitions =
     (if length partitions = 0 then ret None
      else andThen (call (Pause partitions) (\<lambda>h. r_Pause env h partitions)) (\<lambda>err.
             case err of
               Some e \<Rightarrow>
                 andThen (emit (Log Warn ''failed to pause consumer'')) (\<lambda>_. ret (Some e))
             | None \<Rightarrow>
                 andThen (emit (GoResumeTask delay partitions)) (\<lambda>_. ret None)))"

section \<open>Auxiliary definitions for the statements\<close>

text \<open>
  Concrete inputs on which the statements below are evaluated: partition 0 of topic
  \<open>T\<close> at a given offset, a reader and callbacks that always succeed (the broker has
  offset 41 committed for that partition), a Consumer without a count threshold, one
  with threshold 3, and a freshly created Consumer's state.
\<close>

definition tpT :: "kafka_Offset \<Rightarrow> TopicPartition" where
  "tpT off = \<lparr>tp_Topic = Some ''T'', tp_Partition = 0, tp_Offset = off, tp_Error = None\<rparr>"

definition msgT :: "kafka_Offset \<Rightarrow> Message" where
  "msgT off = \<lparr>msg_TopicPartition = tpT off, msg_Value = ''payload''\<rparr>"

definition env_ok :: env where
  "env_ok = \<lparr>
     r_SubscribeTopics = (\<lambda>h ts. Returns None),
     r_Unsubscribe = (\<lambda>h. Returns None),
     r_Unassign = (\<lambda>h. Returns None),
     r_Close = (\<lambda>h. Returns None),
     r_Committed = (\<lambda>h ps t. Returns ([tpT 41], None)),
     r_Assign = (\<lambda>h ps. Returns None),
     r_CommitOffsets = (\<lambda>h ps. Returns (ps, None)),
     r_Pause = (\<lambda>h ps. Returns None),
     r_Resume = (\<lambda>h ps. Returns None),
     r_GetMetadata = (\<lambda>h t a ms. Returns None),
     cb_onError = (\<lambda>h e. Returns ()),
     cb_onProcess = (\<lambda>h m. Returns None),
     cb_onCommit = (\<lambda>h t p off n. Returns ()),
     cb_onRevoke = (\<lambda>h ps. Returns ()),
     cb_onRebalance = (\<lambda>h ps. Returns ())\<rparr>"

definition c0 :: Consumer where
  "c0 = \<lparr>commitOffsetCount = 0, commitOffsetDuration = 0, topics = [''T'']\<rparr>"

definition c3 :: Consumer where
  "c3 = \<lparr>commitOffsetCount = 3, commitOffsetDuration = 0, topics = [''T'']\<rparr>"

definition s0 :: world where
  "s0 = \<lparr>trace = [], ctxDone = False, consumerOffsets = []\<rparr>"

text \<open>The state after offsets 10 and 11 of that partition were added to the tracker.\<close>

definition s_two :: world where
  "s_two = s0\<lparr>consumerOffsets := Add (tpT 11) (Add (tpT 10) newOffset)\<rparr>"


definition emits :: "action set \<Rightarrow> 'a prog \<Rightarrow> bool" where
  "emits A m = (\<forall>s. \<exists>ext. trace (snd (m s)) = trace s @ ext \<and> set ext \<subseteq> A)"

fun flush_action :: "action \<Rightarrow> bool" where
  "flush_action (Log l m) = True"
| "flush_action (CommitOffsets ps) = True"
| "flush_action (OnError e) = True"
| "flush_action (OnCommit t p off n) = True"
| "flush_action a = False"

text \<open>The actions recorded between two states of one run.\<close>

definition since :: "world \<Rightarrow> world \<Rightarrow> action list" where
  "since s s' = drop (length (trace s)) (trace s')"

fun is_OnCommit :: "action \<Rightarrow> bool" where
  "is_OnCommit (OnCommit t p off n) = True"
| "is_OnCommit a = False"

text \<open>The partition, offset and count that a call of \<open>OnCommit\<close> reports.\<close>

fun committed_of :: "action \<Rightarrow> (32 word \<times> kafka_Offset \<times> int) option" where
  "committed_of (OnCommit t p off n) = Some (p, off, n)"
| "committed_of a = None"

definition key_of :: "TopicPartition \<Rightarrow> PartitionKey" where
  "key_of p = getPartitionKey (tp_Topic p) (tp_Partition p)"

text \<open>Recognisers of single kinds of action.\<close>

fun is_CommitOffsets :: "action \<Rightarrow> bool" where
  "is_CommitOffsets (CommitOffsets ps) = True"
| "is_CommitOffsets a = False"


definition never_blocks :: "'a prog \<Rightarrow> bool" where
  "never_blocks m = (\<forall>s. fst (m s) \<noteq> Blocked)"

text \<open>actions of the loop phase\<close>

fun loop_action :: "action \<Rightarrow> bool" where
  "loop_action (Log l m) = True"
| "loop_action (CommitOffsets ps) = True"
| "loop_action (OnError e) = True"
| "loop_action (OnCommit t p off n) = True"
| "loop_action (Committed ps t) = True"
| "loop_action (Assign ps) = True"
| "loop_action Unassign = True"
| "loop_action (OnProcess m) = True"
| "loop_action (OnRevoke ps) = True"
| "loop_action (OnRebalance ps) = True"
| "loop_action a = False"

text \<open>
  The state of \<open>Start\<close> once its deferred calls are registered, and the state it
  leaves when they have run: \<open>logged\<close> is what the recovering call logged.
\<close>

definition entered :: "world \<Rightarrow> world" where
  "entered s = s\<lparr>trace := trace s @ [MuLock, WgAdd, Log Info ''start'']\<rparr>"

definition left :: "action list \<Rightarrow> world \<Rightarrow> world" where
  "left logged s = s\<lparr>trace := trace s @ logged @ [WgDone, CtxCancel, MuUnlock, Notify StateClosed],
                     ctxDone := True\<rparr>"

text \<open>The calls of the broker reader.\<close>

fun broker_op :: "action \<Rightarrow> bool" where
  "broker_op (SubscribeTopics ts) = True"
| "broker_op Unsubscribe = True"
| "broker_op Unassign = True"
| "broker_op Close = True"
| "broker_op (Committed ps t) = True"
| "broker_op (Assign ps) = True"
| "broker_op (CommitOffsets ps) = True"
| "broker_op (Pause ps) = True"
| "broker_op (Resume ps) = True"
| "broker_op (GetMetadata t a ms) = True"
| "broker_op a = False"

text \<open>A Consumer that was stopped before it was ever started.\<close>

definition s_stopped :: world where
  "s_stopped = snd (Stop s0)"

text \<open>A user handler that panics.\<close>

definition env_panics :: env where
  "env_panics = env_ok\<lparr>cb_onProcess := (\<lambda>h m. Panics ''boom'')\<rparr>"

text \<open>
  A lifecycle of one Consumer: calls of \<open>Start\<close> and \<open>Stop\<close>, one after the other.
  A \<open>Stop\<close> that arrives while \<open>Start\<close> runs is the \<open>SelDone\<close> turn of that
  \<open>Start\<close>; a \<open>Start\<close> that blocks ends the lifecycle there.
\<close>

datatype lifecycle_call = CallStart "selected list" | CallStop

fun lifecycle :: "env \<Rightarrow> Consumer \<Rightarrow> lifecycle_call list \<Rightarrow> unit prog" where
  "lifecycle env c [] = ret ()"
| "lifecycle env c (CallStart sched # rest) =
     andThen (Start env c sched) (\<lambda>_. lifecycle env c rest)"
| "lifecycle env c (CallStop # rest) =
     andThen Stop (\<lambda>_. lifecycle env c rest)"

fun is_CallStart :: "lifecycle_call \<Rightarrow> bool" where
  "is_CallStart (CallStart sched) = True"
| "is_CallStart CallStop = False"

fun is_Notify :: "action \<Rightarrow> bool" where
  "is_Notify (Notify st) = True"
| "is_Notify a = False"

text \<open>The actions of \<open>listen\<close>: those of the loop, the ticker and the subscription.\<close>

fun listen_action :: "action \<Rightarrow> bool" where
  "listen_action (NewTicker d) = True"
| "listen_action TickerStop = True"
| "listen_action (SubscribeTopics ts) = True"
| "listen_action Unsubscribe = True"
| "listen_action Close = True"
| "listen_action a = loop_action a"






section \<open>Properties\<close>

lemma emitsD: "emits A m \<Longrightarrow> m s = (r, s') \<Longrightarrow> \<exists>ext. trace s' = trace s @ ext \<and> set ext \<subseteq> A"
  unfolding emits_def by (metis snd_conv)

lemma emits_mono: "emits A m \<Longrightarrow> A \<subseteq> B \<Longrightarrow> emits B m"
  unfolding emits_def by (meson subset_trans)

lemma emits_ret: "emits A (ret x)"
  by (simp add: emits_def ret_def)

lemma emits_emit: "a \<in> A \<Longrightarrow> emits A (emit a)"
  by (simp add: emits_def emit_def)

lemma emits_call: "a \<in> A \<Longrightarrow> emits A (call a f)"
  by (auto simp: emits_def call_def split: outcome.splits)

lemma emits_modify_offsets: "emits A (modify_offsets f)"
  by (simp add: emits_def modify_offsets_def)

lemma emits_cancel: "CtxCancel \<in> A \<Longrightarrow> emits A cancel"
  by (simp add: emits_def cancel_def)

lemma emits_read_offsets: "(\<And>t. emits A (f t)) \<Longrightarrow> emits A (read_offsets f)"
  by (simp add: emits_def read_offsets_def)

lemma emits_andThen:
  assumes "emits A m" and "\<And>x. emits A (f x)"
  shows "emits A (andThen m f)"
  unfolding emits_def
proof
  fix s
  obtain r s1 where m: "m s = (r, s1)" by (cases "m s")
  from emitsD [OF assms(1) m] obtain e1 where e1: "trace s1 = trace s @ e1" "set e1 \<subseteq> A"
    by blast
  show "\<exists>ext. trace (snd (andThen m f s)) = trace s @ ext \<and> set ext \<subseteq> A"
  proof (cases r)
    case (Ok x)
    obtain r2 s2 where f: "f x s1 = (r2, s2)" by (cases "f x s1")
    from emitsD [OF assms(2) f] obtain e2 where "trace s2 = trace s1 @ e2" "set e2 \<subseteq> A"
      by blast
    with e1 Ok m f show ?thesis
      by (intro exI [of _ "e1 @ e2"]) (simp add: andThen_def)
  next
    case (Panic p)
    with e1 m show ?thesis by (intro exI [of _ e1]) (simp add: andThen_def)
  next
    case Blocked
    with e1 m show ?thesis by (intro exI [of _ e1]) (simp add: andThen_def)
  qed
qed

lemma emits_deferring:
  assumes "emits A d" and "emits A m"
  shows "emits A (deferring d m)"
  unfolding emits_def
proof
  fix s
  obtain r s1 where m: "m s = (r, s1)" by (cases "m s")
  from emitsD [OF assms(2) m] obtain e1 where e1: "trace s1 = trace s @ e1" "set e1 \<subseteq> A"
    by blast
  obtain r2 s2 where d: "d s1 = (r2, s2)" by (cases "d s1")
  from emitsD [OF assms(1) d] obtain e2 where e2: "trace s2 = trace s1 @ e2" "set e2 \<subseteq> A"
    by blast
  show "\<exists>ext. trace (snd (deferring d m s)) = trace s @ ext \<and> set ext \<subseteq> A"
  proof (cases "r = Blocked")
    case True
    with e1 m show ?thesis by (intro exI [of _ e1]) (simp add: deferring_def)
  next
    case False
    with e1 e2 m d show ?thesis
      by (intro exI [of _ "e1 @ e2"]) (cases r; cases r2; simp add: deferring_def)
  qed
qed

lemma emits_recovering:
  assumes "emits A m" and "\<And>p. emits A (h p)"
  shows "emits A (recovering z h m)"
  unfolding emits_def
proof
  fix s
  obtain r s1 where m: "m s = (r, s1)" by (cases "m s")
  from emitsD [OF assms(1) m] obtain e1 where e1: "trace s1 = trace s @ e1" "set e1 \<subseteq> A"
    by blast
  show "\<exists>ext. trace (snd (recovering z h m s)) = trace s @ ext \<and> set ext \<subseteq> A"
  proof (cases r)
    case (Panic p)
    obtain r2 s2 where h: "h p s1 = (r2, s2)" by (cases "h p s1")
    from emitsD [OF assms(2) h] obtain e2 where "trace s2 = trace s1 @ e2" "set e2 \<subseteq> A"
      by blast
    with e1 Panic m h show ?thesis
      by (intro exI [of _ "e1 @ e2"]) (cases r2; simp add: recovering_def)
  next
    case (Ok x)
    with e1 m show ?thesis by (intro exI [of _ e1]) (simp add: recovering_def)
  next
    case Blocked
    with e1 m show ?thesis by (intro exI [of _ e1]) (simp add: recovering_def)
  qed
qed

lemma emits_if: "(c \<Longrightarrow> emits A m) \<Longrightarrow> (\<not> c \<Longrightarrow> emits A n) \<Longrightarrow> emits A (if c then m else n)"
  by simp

lemma emits_case_option:
  "(x = None \<Longrightarrow> emits A m) \<Longrightarrow> (\<And>y. x = Some y \<Longrightarrow> emits A (f y)) \<Longrightarrow>
   emits A (case x of None \<Rightarrow> m | Some y \<Rightarrow> f y)"
  by (cases x) simp_all

lemma emits_case_prod: "(\<And>a b. p = (a, b) \<Longrightarrow> emits A (f a b)) \<Longrightarrow> emits A (case p of (a, b) \<Rightarrow> f a b)"
  by (cases p) simp

lemmas emits_intros = emits_ret emits_emit emits_call emits_modify_offsets emits_cancel
  emits_read_offsets emits_andThen emits_deferring emits_recovering emits_if
  emits_case_option emits_case_prod

lemma emits_commit_each: "emits (Collect flush_action) (commit_each env count success topic)"
  by (induction success arbitrary: topic) (auto intro!: emits_intros simp: Let_def)

lemma emits_onError: "OnError e \<in> A \<Longrightarrow> emits A (onError env e)"
  by (simp add: onError_def emits_call)

lemma emits_commitOffsets: "emits (Collect flush_action) (commitOffsets env)"
  unfolding commitOffsets_def
  by (auto intro!: emits_intros emits_onError emits_commit_each)

lemma commit_each_ok:
  assumes "\<And>h t p off n. cb_onCommit env h t p off n = Returns ()"
  shows "\<exists>s' acts. commit_each env count success topic s = (Ok (), s')
         \<and> trace s' = trace s @ acts
         \<and> consumerOffsets s' = filter (\<lambda>(k, off, n). k \<notin> key_of ` set success) (consumerOffsets s)
         \<and> List.map_filter committed_of acts =
             map (\<lambda>item. (tp_Partition item, tp_Offset item, count_at count (key_of item))) success
         \<and> length acts = length success"
proof (induction success arbitrary: topic s)
  case Nil
  show ?case by (simp add: ret_def map_filter_simps)
next
  case (Cons item rest)
  define topic' where "topic' = (case tp_Topic item of Some t \<Rightarrow> t | None \<Rightarrow> topic)"
  define a0 where "a0 = OnCommit topic' (tp_Partition item) (tp_Offset item) (count_at count (key_of item))"
  define s1 where "s1 = s\<lparr>consumerOffsets := Remove item (consumerOffsets s), trace := trace s @ [a0]\<rparr>"
  from Cons.IH [of topic' s1] obtain s' acts where
    a: "commit_each env count rest topic' s1 = (Ok (), s')"
    and t: "trace s' = trace s1 @ acts"
    and o: "consumerOffsets s' = filter (\<lambda>(k, off, n). k \<notin> key_of ` set rest) (consumerOffsets s1)"
    and b: "List.map_filter committed_of acts =
             map (\<lambda>item. (tp_Partition item, tp_Offset item, count_at count (key_of item))) rest"
    and c: "length acts = length rest"
    by blast
  have step: "commit_each env count (item # rest) topic s = commit_each env count rest topic' s1"
    by (simp add: andThen_def modify_offsets_def call_def assms Let_def topic'_def s1_def a0_def key_of_def)
  have filt: "filter (\<lambda>(k, off, n). k \<notin> key_of ` set rest) (Remove item (consumerOffsets s)) =
        filter (\<lambda>(k, off, n). k \<notin> key_of ` set (item # rest)) (consumerOffsets s)"
    by (auto simp: Remove_def key_of_def intro!: filter_cong)
  have "trace s' = trace s @ (a0 # acts)"
    using t by (simp add: s1_def)
  moreover have "consumerOffsets s' = filter (\<lambda>(k, off, n). k \<notin> key_of ` set (item # rest)) (consumerOffsets s)"
    using o filt by (simp add: s1_def)
  moreover have "List.map_filter committed_of (a0 # acts) =
      map (\<lambda>item. (tp_Partition item, tp_Offset item, count_at count (key_of item))) (item # rest)"
    using b by (simp add: map_filter_simps a0_def)
  moreover have "length (a0 # acts) = length (item # rest)"
    using c by simp
  ultimately show ?case
    using a step by metis
qed

lemma Get_empty: "fst (Get t) = [] \<longleftrightarrow> t = []"
  by (simp add: Get_def)

lemma commitOffsets_empty: "consumerOffsets s = [] \<Longrightarrow> commitOffsets env s = (Ok (), s)"
  by (simp add: commitOffsets_def read_offsets_def Get_def ret_def)

lemma commitOffsets_failure:
  assumes "consumerOffsets s \<noteq> []"
    and "\<not> (\<exists>success. r_CommitOffsets env (trace s) (fst (Get (consumerOffsets s))) = Returns (success, None)
              \<and> checkPartitions success = None)"
  shows "consumerOffsets (snd (commitOffsets env s)) = consumerOffsets s
         \<and> (\<forall>a \<in> set (since s (snd (commitOffsets env s))). \<not> is_OnCommit a)"
proof (cases "r_CommitOffsets env (trace s) (fst (Get (consumerOffsets s)))")
  case (Panics p)
  with assms(1) show ?thesis
    by (simp add: commitOffsets_def read_offsets_def Get_def call_def andThen_def since_def)
next
  case (Returns res)
  obtain success err where res: "res = (success, err)" by (cases res)
  show ?thesis
  proof (cases err)
    case (Some e)
    with assms(1) Returns res show ?thesis
      by (cases "cb_onError env (trace s @ [CommitOffsets (fst (Get (consumerOffsets s))), Log Error ''failed to commit'']) e")
         (simp_all add: commitOffsets_def read_offsets_def Get_def call_def andThen_def since_def emit_def onError_def)
  next
    case None
    with assms(2) Returns res obtain e where e: "checkPartitions success = Some e" by auto
    with assms(1) Returns res None show ?thesis
      by (cases "cb_onError env (trace s @ [CommitOffsets (fst (Get (consumerOffsets s))), Log Error ''failed to commit'']) e")
         (simp_all add: commitOffsets_def read_offsets_def Get_def call_def andThen_def since_def emit_def onError_def)
  qed
qed

lemma commitOffsets_success:
  assumes ne: "consumerOffsets s \<noteq> []"
    and rpc: "r_CommitOffsets env (trace s) (fst (Get (consumerOffsets s))) = Returns (success, None)"
    and chk: "checkPartitions success = None"
    and cb: "\<And>h t p off n. cb_onCommit env h t p off n = Returns ()"
  shows "fst (commitOffsets env s) = Ok ()
       \<and> consumerOffsets (snd (commitOffsets env s)) =
           filter (\<lambda>(k, off, n). k \<notin> key_of ` set success) (consumerOffsets s)
       \<and> List.map_filter committed_of (since s (snd (commitOffsets env s))) =
           map (\<lambda>item. (tp_Partition item, tp_Offset item,
                    count_at (snd (Get (consumerOffsets s))) (key_of item))) success"
proof -
  define list where "list = fst (Get (consumerOffsets s))"
  define count where "count = snd (Get (consumerOffsets s))"
  define s1 where "s1 = s\<lparr>trace := trace s @ [CommitOffsets list, Log Debug ''success'']\<rparr>"
  have g: "Get (consumerOffsets s) = (list, count)"
    by (simp add: list_def count_def)
  have l: "list \<noteq> []"
    using ne by (simp add: list_def Get_empty)
  have run: "commitOffsets env s = commit_each env count success [] s1"
    using l rpc chk
    by (simp add: commitOffsets_def read_offsets_def call_def andThen_def emit_def g s1_def
        list_def [symmetric])
  from commit_each_ok [OF cb, of count success "[]" s1] obtain s' acts where
    a: "commit_each env count success [] s1 = (Ok (), s')"
    and t: "trace s' = trace s1 @ acts"
    and o: "consumerOffsets s' = filter (\<lambda>(k, off, n). k \<notin> key_of ` set success) (consumerOffsets s1)"
    and b: "List.map_filter committed_of acts =
             map (\<lambda>item. (tp_Partition item, tp_Offset item, count_at count (key_of item))) success"
    by blast
  have "since s s' = [CommitOffsets list, Log Debug ''success''] @ acts"
    using t by (simp add: since_def s1_def)
  then have "List.map_filter committed_of (since s s') = List.map_filter committed_of acts"
    by (simp add: map_filter_simps)
  with a o b run show ?thesis
    by (simp add: s1_def count_def)
qed

text \<open>
  Claim C10. \<open>commitOffsets\<close> is atomic with respect to the tracker on failure. With
  an empty tracker it does nothing at all: no commit call, no callback, the state is
  unchanged. If it removes a tracker entry or calls \<open>OnCommit\<close>, then the commit call
  returned without an error and no returned partition carries an error. After such a
  commit, with an \<open>OnCommit\<close> that returns, it ends normally, the entries of the
  returned partitions are removed and \<open>OnCommit\<close> has been called once for each
  returned partition, in order, with its partition, its offset and the count of the key
  in the snapshot.
\<close>

theorem commitOffsets_atomic:
  "(consumerOffsets t = [] \<longrightarrow> commitOffsets env t = (Ok (), t))
   \<and> (consumerOffsets (snd (commitOffsets env s)) \<noteq> consumerOffsets s
        \<or> (\<exists>a \<in> set (since s (snd (commitOffsets env s))). is_OnCommit a)
      \<longrightarrow> (\<exists>success. r_CommitOffsets env (trace s) (fst (Get (consumerOffsets s))) = Returns (success, None)
              \<and> checkPartitions success = None))
   \<and> (consumerOffsets s \<noteq> []
        \<and> r_CommitOffsets env (trace s) (fst (Get (consumerOffsets s))) = Returns (success, None)
        \<and> checkPartitions success = None
        \<and> (\<forall>h t p off n. cb_onCommit env h t p off n = Returns ())
      \<longrightarrow> fst (commitOffsets env s) = Ok ()
          \<and> consumerOffsets (snd (commitOffsets env s)) =
              filter (\<lambda>(k, off, n). k \<notin> key_of ` set success) (consumerOffsets s)
          \<and> List.map_filter committed_of (since s (snd (commitOffsets env s))) =
              map (\<lambda>item. (tp_Partition item, tp_Offset item,
                       count_at (snd (Get (consumerOffsets s))) (key_of item))) success)"
proof (intro conjI impI)
  assume "consumerOffsets t = []"
  then show "commitOffsets env t = (Ok (), t)" by (rule commitOffsets_empty)
next
  assume ch: "consumerOffsets (snd (commitOffsets env s)) \<noteq> consumerOffsets s
        \<or> (\<exists>a \<in> set (since s (snd (commitOffsets env s))). is_OnCommit a)"
  have ne: "consumerOffsets s \<noteq> []"
  proof
    assume "consumerOffsets s = []"
    then have "commitOffsets env s = (Ok (), s)" by (rule commitOffsets_empty)
    with ch show False by (simp add: since_def)
  qed
  show "\<exists>success. r_CommitOffsets env (trace s) (fst (Get (consumerOffsets s))) = Returns (success, None)
              \<and> checkPartitions success = None"
    using commitOffsets_failure [OF ne] ch by blast
next
  assume h: "consumerOffsets s \<noteq> []
        \<and> r_CommitOffsets env (trace s) (fst (Get (consumerOffsets s))) = Returns (success, None)
        \<and> checkPartitions success = None
        \<and> (\<forall>h t p off n. cb_onCommit env h t p off n = Returns ())"
  then have r: "fst (commitOffsets env s) = Ok ()
       \<and> consumerOffsets (snd (commitOffsets env s)) =
           filter (\<lambda>(k, off, n). k \<notin> key_of ` set success) (consumerOffsets s)
       \<and> List.map_filter committed_of (since s (snd (commitOffsets env s))) =
           map (\<lambda>item. (tp_Partition item, tp_Offset item,
                    count_at (snd (Get (consumerOffsets s))) (key_of item))) success"
    by (intro commitOffsets_success) auto
  from r show "fst (commitOffsets env s) = Ok ()" by blast
  from r show "consumerOffsets (snd (commitOffsets env s)) =
           filter (\<lambda>(k, off, n). k \<notin> key_of ` set success) (consumerOffsets s)" by blast
  from r show "List.map_filter committed_of (since s (snd (commitOffsets env s))) =
           map (\<lambda>item. (tp_Partition item, tp_Offset item,
                    count_at (snd (Get (consumerOffsets s))) (key_of item))) success" by blast
qed

theorem commitOffsets_atomic_witness:
  "consumerOffsets s0 = [] \<and> commitOffsets env_ok s0 = (Ok (), s0)
   \<and> consumerOffsets s_two \<noteq> []
   \<and> r_CommitOffsets env_ok (trace s_two) (fst (Get (consumerOffsets s_two))) = Returns ([tpT 11], None)
   \<and> checkPartitions [tpT 11] = None
   \<and> (\<forall>h t p off n. cb_onCommit env_ok h t p off n = Returns ())
   \<and> fst (commitOffsets env_ok s_two) = Ok ()
   \<and> consumerOffsets (snd (commitOffsets env_ok s_two)) = []
   \<and> List.map_filter committed_of (since s_two (snd (commitOffsets env_ok s_two))) = [(0, 11, 2)]"
  using commitOffsets_atomic [of s0 env_ok s_two "[tpT 11]"]
  by (simp add: s0_def s_two_def env_ok_def tpT_def Add_def Get_def getPartitionKey_def
      newOffset_def key_of_def count_at_def)

lemma andThen_call_trace:
  assumes "\<And>x. emits A (g x)"
  shows "\<exists>ext. trace (snd (andThen (call a f) g s)) = trace s @ a # ext \<and> set ext \<subseteq> A"
proof (cases "f (trace s)")
  case (Panics p)
  then show ?thesis by (simp add: andThen_def call_def)
next
  case (Returns x)
  obtain r s2 where g: "g x (s\<lparr>trace := trace s @ [a]\<rparr>) = (r, s2)"
    by (cases "g x (s\<lparr>trace := trace s @ [a]\<rparr>)")
  from emitsD [OF assms g] obtain ext where "trace s2 = (trace s @ [a]) @ ext" "set ext \<subseteq> A"
    by auto
  with Returns g show ?thesis by (simp add: andThen_def call_def)
qed

lemma commitOffsets_calls_rpc:
  assumes "consumerOffsets s \<noteq> []"
  shows "\<exists>ext. since s (snd (commitOffsets env s)) = CommitOffsets (fst (Get (consumerOffsets s))) # ext"
proof -
  obtain list count where g: "Get (consumerOffsets s) = (list, count)"
    by (cases "Get (consumerOffsets s)")
  have l: "list \<noteq> []" using assms Get_empty [of "consumerOffsets s"] g by simp
  have "\<exists>ext. trace (snd (commitOffsets env s)) = trace s @ CommitOffsets list # ext \<and> set ext \<subseteq> Collect flush_action"
    unfolding commitOffsets_def read_offsets_def g using l
    by (simp, intro andThen_call_trace) (auto intro!: emits_intros emits_onError emits_commit_each)
  then show ?thesis by (auto simp: since_def g)
qed

lemma Add_entry_nonempty: "Add_entry k off t \<noteq> []"
  by (cases t) (auto split: if_splits)

lemma handleMessage_processed:
  assumes "tp_Error (msg_TopicPartition e) = None" and "cb_onProcess env (trace s) e = Returns None"
  shows "handleMessage env c e s =
     andThen (if commitOffsetCount c > 0
              then read_offsets (\<lambda>consumerOffsets.
                     if Counter consumerOffsets \<ge> commitOffsetCount c
                     then commitOffsets env else ret ())
              else ret ()) (\<lambda>_. andThen (emit (Log Debug ''success'')) (\<lambda>_. ret None))
       (s\<lparr>trace := trace s @ [OnProcess e],
          consumerOffsets := Add (msg_TopicPartition e) (consumerOffsets s)\<rparr>)"
  using assms by (simp add: handleMessage_def andThen_def call_def modify_offsets_def)

lemma handleMessage_flush_iff:
  assumes "tp_Error (msg_TopicPartition e) = None" and "cb_onProcess env (trace s) e = Returns None"
  shows "(\<exists>a \<in> set (since s (snd (handleMessage env c e s))). is_CommitOffsets a) \<longleftrightarrow>
         (commitOffsetCount c > 0 \<and>
          Counter (Add (msg_TopicPartition e) (consumerOffsets s)) \<ge> commitOffsetCount c)"
proof (cases "commitOffsetCount c > 0 \<and>
          Counter (Add (msg_TopicPartition e) (consumerOffsets s)) \<ge> commitOffsetCount c")
  case False
  then have "since s (snd (handleMessage env c e s)) = [OnProcess e, Log Debug ''success'']"
    unfolding handleMessage_processed [OF assms]
    by (auto simp: andThen_def read_offsets_def ret_def emit_def since_def)
  with False show ?thesis by simp
next
  case True
  define s1 where "s1 = s\<lparr>trace := trace s @ [OnProcess e],
          consumerOffsets := Add (msg_TopicPartition e) (consumerOffsets s)\<rparr>"
  have ne: "consumerOffsets s1 \<noteq> []"
    by (simp add: s1_def Add_def Add_entry_nonempty)
  obtain r s2 where c: "commitOffsets env s1 = (r, s2)" by (cases "commitOffsets env s1")
  from commitOffsets_calls_rpc [OF ne, of env] c obtain ext where
    ext: "since s1 s2 = CommitOffsets (fst (Get (consumerOffsets s1))) # ext" by auto
  from emitsD [OF emits_commitOffsets c] obtain e1 where e1: "trace s2 = trace s1 @ e1" by blast
  with ext have "e1 = CommitOffsets (fst (Get (consumerOffsets s1))) # ext"
    by (simp add: since_def)
  with e1 have t2: "trace s2 = trace s @ OnProcess e # CommitOffsets (fst (Get (consumerOffsets s1))) # ext"
    by (simp add: s1_def)
  have "\<exists>post. trace (snd (handleMessage env c e s)) = trace s2 @ post"
  proof -
    have cnt: "commitOffsetCount c \<le> Counter (consumerOffsets s1)" "0 < commitOffsetCount c"
      using True by (simp_all add: s1_def)
    show ?thesis
      unfolding handleMessage_processed [OF assms] s1_def [symmetric] using cnt c
      by (cases r) (auto simp: andThen_def read_offsets_def ret_def emit_def)
  qed
  then obtain post where "trace (snd (handleMessage env c e s)) = trace s2 @ post" by blast
  with t2 have "CommitOffsets (fst (Get (consumerOffsets s1))) \<in> set (since s (snd (handleMessage env c e s)))"
    by (simp add: since_def)
  then have "\<exists>a \<in> set (since s (snd (handleMessage env c e s))). is_CommitOffsets a"
    by (rule bexI [rotated]) simp
  with True show ?thesis by simp
qed

text \<open>Without a positive threshold \<open>handleMessage\<close> never commits, whatever the message.\<close>

lemma emits_handleMessage_no_count:
  assumes "commitOffsetCount c \<le> 0"
  shows "emits {a. \<not> is_CommitOffsets a} (handleMessage env c e)"
  unfolding handleMessage_def using assms
  by (auto intro!: emits_intros emits_onError)

lemma handleMessage_no_count:
  assumes "commitOffsetCount c \<le> 0"
  shows "\<forall>a \<in> set (since s (snd (handleMessage env c e s))). \<not> is_CommitOffsets a"
proof -
  obtain r s' where h: "handleMessage env c e s = (r, s')" by (cases "handleMessage env c e s")
  from emitsD [OF emits_handleMessage_no_count [OF assms] h] obtain ext where
    "trace s' = trace s @ ext" "set ext \<subseteq> {a. \<not> is_CommitOffsets a}" by blast
  with h show ?thesis by (auto simp: since_def)
qed

text \<open>
  Claim C7. When a message carries no error and \<open>OnProcess\<close> accepts it, its offset is
  added to the tracker and \<open>handleMessage\<close> calls the commit of the reader if and only
  if \<open>commitOffsetCount\<close> is positive and the counter of the tracker, after the
  addition, has reached it. With \<open>commitOffsetCount = 0\<close> no call of \<open>handleMessage\<close>
  commits, whatever the message and the callbacks do.
\<close>

theorem handleMessage_count_flush:
  "(tp_Error (msg_TopicPartition e) = None \<and> cb_onProcess env (trace s) e = Returns None \<longrightarrow>
      ((\<exists>a \<in> set (since s (snd (handleMessage env c e s))). is_CommitOffsets a) \<longleftrightarrow>
       (commitOffsetCount c > 0 \<and>
        Counter (Add (msg_TopicPartition e) (consumerOffsets s)) \<ge> commitOffsetCount c)))
   \<and> (commitOffsetCount c' = 0 \<longrightarrow>
        (\<forall>a \<in> set (since s' (snd (handleMessage env' c' e' s'))). \<not> is_CommitOffsets a))"
  using handleMessage_flush_iff [of e env s c] handleMessage_no_count [of c' s' env' e']
  by simp

theorem handleMessage_count_flush_witness:
  "tp_Error (msg_TopicPartition (msgT 12)) = None
   \<and> cb_onProcess env_ok (trace s_two) (msgT 12) = Returns None
   \<and> (\<exists>a \<in> set (since s_two (snd (handleMessage env_ok c3 (msgT 12) s_two))). is_CommitOffsets a)
   \<and> 0 < commitOffsetCount c3
   \<and> Counter (Add (msg_TopicPartition (msgT 12)) (consumerOffsets s_two)) = 3
   \<and> commitOffsetCount c0 = 0
   \<and> filter is_CommitOffsets (since s_two (snd (handleMessage env_ok c0 (msgT 12) s_two))) = []"
  using handleMessage_count_flush [of "msgT 12" env_ok s_two c3 c0 s_two env_ok "msgT 12"]
  by (simp add: msgT_def tpT_def env_ok_def s_two_def s0_def c3_def c0_def Add_def Counter_def
      getPartitionKey_def newOffset_def filter_empty_conv)










lemma never_blocksD: "never_blocks m \<Longrightarrow> m s = (r, s') \<Longrightarrow> r \<noteq> Blocked"
  unfolding never_blocks_def by (metis fst_conv)

lemma nb_ret: "never_blocks (ret x)"
  by (simp add: never_blocks_def ret_def)

lemma nb_emit: "never_blocks (emit a)"
  by (simp add: never_blocks_def emit_def)

lemma nb_call: "never_blocks (call a f)"
  by (simp add: never_blocks_def call_def split: outcome.splits)

lemma nb_modify_offsets: "never_blocks (modify_offsets f)"
  by (simp add: never_blocks_def modify_offsets_def)

lemma nb_cancel: "never_blocks cancel"
  by (simp add: never_blocks_def cancel_def)

lemma nb_read_offsets: "(\<And>t. never_blocks (f t)) \<Longrightarrow> never_blocks (read_offsets f)"
  by (simp add: never_blocks_def read_offsets_def)

lemma nb_andThen:
  assumes "never_blocks m" and "\<And>x. never_blocks (f x)"
  shows "never_blocks (andThen m f)"
  unfolding never_blocks_def
proof
  fix s
  obtain r s1 where m: "m s = (r, s1)" by (cases "m s")
  with assms(1) have "r \<noteq> Blocked" by (rule never_blocksD)
  with m assms(2) show "fst (andThen m f s) \<noteq> Blocked"
    by (cases r) (simp_all add: andThen_def never_blocks_def)
qed

lemma nb_deferring:
  assumes "never_blocks d" and "never_blocks m"
  shows "never_blocks (deferring d m)"
  unfolding never_blocks_def
proof
  fix s
  obtain r s1 where m: "m s = (r, s1)" by (cases "m s")
  with assms(2) have r: "r \<noteq> Blocked" by (rule never_blocksD)
  obtain r2 s2 where d: "d s1 = (r2, s2)" by (cases "d s1")
  with assms(1) have "r2 \<noteq> Blocked" by (rule never_blocksD)
  with r m d show "fst (deferring d m s) \<noteq> Blocked"
    by (cases r; cases r2) (simp_all add: deferring_def)
qed

lemma nb_if: "(c \<Longrightarrow> never_blocks m) \<Longrightarrow> (\<not> c \<Longrightarrow> never_blocks n) \<Longrightarrow> never_blocks (if c then m else n)"
  by simp

lemma nb_case_option:
  "(x = None \<Longrightarrow> never_blocks m) \<Longrightarrow> (\<And>y. x = Some y \<Longrightarrow> never_blocks (f y)) \<Longrightarrow>
   never_blocks (case x of None \<Rightarrow> m | Some y \<Rightarrow> f y)"
  by (cases x) simp_all

lemma nb_case_prod: "(\<And>a b. p = (a, b) \<Longrightarrow> never_blocks (f a b)) \<Longrightarrow> never_blocks (case p of (a, b) \<Rightarrow> f a b)"
  by (cases p) simp

lemmas nb_intros = nb_ret nb_emit nb_call nb_modify_offsets nb_cancel nb_read_offsets
  nb_andThen nb_deferring nb_if nb_case_option nb_case_prod



lemma nb_listen_closing: "never_blocks (listen_closing env)"
  unfolding listen_closing_def
  by (auto intro!: nb_intros)

lemma flush_loop_action: "flush_action a \<Longrightarrow> loop_action a"
  by (cases a) simp_all

lemma emits_commitOffsets_loop: "emits (Collect loop_action) (commitOffsets env)"
  by (rule emits_mono [OF emits_commitOffsets]) (auto intro: flush_loop_action)

lemma emits_dispatch: "emits (Collect loop_action) (dispatch env c ev)"
  unfolding dispatch_def handleRebalance_def handleRevoke_def handleMessage_def
    handlePartitionEOF_def handleOffsetCommitted_def
  by (cases ev) (auto intro!: emits_intros emits_onError emits_commitOffsets_loop)

lemma emits_listen_loop: "emits (Collect loop_action) (listen_loop env c sched)"
proof (induction env c sched rule: listen_loop.induct)
  case (1 env c)
  show ?case by (simp add: emits_def)
next
  case (2 env c rest)
  show ?case by (simp add: emits_def)
next
  case (3 env c rest)
  then show ?case by (auto intro!: emits_intros emits_commitOffsets_loop)
next
  case (4 env c ev rest)
  then show ?case by (auto intro!: emits_intros emits_dispatch)
qed

lemma Start_cases:
  assumes "Start_body env c sched (entered s) = (r, s1)"
  shows "Start env c sched s =
     (case r of
        Blocked \<Rightarrow> (Blocked, s1)
      | Ok x \<Rightarrow> (Ok x, left [] s1)
      | Panic p \<Rightarrow> (Ok None, left [Log Error (''panic:'' @ p @ [CHR 0x0A])] s1))"
  using assms
  by (cases r)
     (simp_all add: Start_def deferring_def andThen_def emit_def recovering_def cancel_def
        log_panic_def entered_def left_def)

lemma Start_closed:
  assumes "ctxDone s"
  shows "Start env c sched s =
     (Ok (Some (GoError ''consumer already closed'')),
      left [] (s\<lparr>trace := trace s @ [MuLock, WgAdd, Log Info ''start'', Log Error ''failed to start consumer'']\<rparr>))"
proof -
  have "Start_body env c sched (entered s) =
     (Ok (Some (GoError ''consumer already closed'')),
      s\<lparr>trace := trace s @ [MuLock, WgAdd, Log Info ''start'', Log Error ''failed to start consumer'']\<rparr>)"
    using assms by (simp add: Start_body_def entered_def andThen_def emit_def ret_def)
  from Start_cases [OF this] show ?thesis by simp
qed

text \<open>
  Claim C5. \<open>Start\<close> on a Consumer whose context is already cancelled returns the
  error "consumer already closed". All it does is take the mutex, add to the wait group,
  log, and run its deferred calls: no call of the broker reader at all, so no
  subscription and no event is read.
\<close>

theorem Start_already_closed:
  assumes "ctxDone s"
  shows "fst (Start env c sched s) = Ok (Some (GoError ''consumer already closed''))
       \<and> since s (snd (Start env c sched s)) =
           [MuLock, WgAdd, Log Info ''start'', Log Error ''failed to start consumer'',
            WgDone, CtxCancel, MuUnlock, Notify StateClosed]
       \<and> filter broker_op (since s (snd (Start env c sched s))) = []"
  using Start_closed [OF assms, of env c sched]
  by (simp add: left_def since_def)

theorem Start_already_closed_witness:
  "ctxDone s_stopped
   \<and> fst (Start env_ok c0 [SelEvent (MessageEvent (msgT 10)), SelDone] s_stopped) =
       Ok (Some (GoError ''consumer already closed''))
   \<and> filter broker_op
       (since s_stopped (snd (Start env_ok c0 [SelEvent (MessageEvent (msgT 10)), SelDone] s_stopped))) = []"
proof -
  have a: "ctxDone s_stopped"
    by (simp add: s_stopped_def Stop_def andThen_def cancel_def emit_def deferring_def s0_def)
  from Start_already_closed [OF a] a show ?thesis by simp
qed



lemmas run_defs = Start_def deferring_def andThen_def emit_def call_def ret_def cancel_def
  recovering_def Start_body_def listen_def listen_closing_def modify_offsets_def
  read_offsets_def commitOffsets_def Get_def newOffset_def dispatch_def handleRebalance_def
  handleMessage_def Clear_def reconcile_def log_panic_def onError_def Add_def Remove_def
  Counter_def getPartitionKey_def count_at_def Second_def Wrap_def Stop_def

lemmas input_defs = env_ok_def env_panics_def c0_def c3_def s0_def tpT_def msgT_def



lemma loop_listen_action: "loop_action a \<Longrightarrow> listen_action a"
  by (cases a) simp_all

lemma emits_listen_closing: "emits (Collect listen_action) (listen_closing env)"
  unfolding listen_closing_def
  by (auto intro!: emits_intros)

lemma emits_listen: "emits (Collect listen_action) (listen env c sched)"
proof -
  have l: "emits (Collect listen_action) (listen_loop env c sched)"
    by (rule emits_mono [OF emits_listen_loop]) (auto intro: loop_listen_action)
  have f: "emits (Collect listen_action) (commitOffsets env)"
    by (rule emits_mono [OF emits_commitOffsets_loop]) (auto intro: loop_listen_action)
  show ?thesis
    unfolding listen_def
    by (auto intro!: emits_intros emits_listen_closing l f)
qed

lemma listen_no_Notify: "listen_action a \<Longrightarrow> \<not> is_Notify a"
  by (cases a) simp_all

lemma Start_open:
  assumes "\<not> ctxDone s"
  shows "\<exists>r s1 ext. Start_body env c sched (entered s) = (r, s1)
           \<and> trace s1 = trace s @ [MuLock, WgAdd, Log Info ''start'', Notify StateRun] @ ext
           \<and> (\<forall>a \<in> set ext. listen_action a)"
proof -
  define s2 where "s2 = s\<lparr>trace := trace s @ [MuLock, WgAdd, Log Info ''start'', Notify StateRun]\<rparr>"
  obtain r s1 where l: "listen env c sched s2 = (r, s1)" by (cases "listen env c sched s2")
  from emitsD [OF emits_listen l] obtain ext where
    e: "trace s1 = trace s2 @ ext" "set ext \<subseteq> Collect listen_action" by blast
  have "Start_body env c sched (entered s) = (r, s1)"
    using assms l by (simp add: Start_body_def entered_def andThen_def emit_def s2_def)
  with e show ?thesis by (auto simp: s2_def)
qed

lemma Start_notifications:
  assumes "fst (Start env c sched s) \<noteq> Blocked"
  shows "filter is_Notify (since s (snd (Start env c sched s))) =
           (if ctxDone s then [Notify StateClosed] else [Notify StateRun, Notify StateClosed])
         \<and> ctxDone (snd (Start env c sched s))"
proof (cases "ctxDone s")
  case True
  from Start_closed [OF True, of env c sched] True show ?thesis
    by (simp add: left_def since_def)
next
  case False
  from Start_open [OF False, of env c sched] obtain r s1 ext where
    b: "Start_body env c sched (entered s) = (r, s1)"
    and t: "trace s1 = trace s @ [MuLock, WgAdd, Log Info ''start'', Notify StateRun] @ ext"
    and e: "\<forall>a \<in> set ext. listen_action a" by blast
  have n: "filter is_Notify ext = []"
    using e listen_no_Notify by (auto simp: filter_empty_conv)
  from Start_cases [OF b] assms have "r \<noteq> Blocked" by (cases r) auto
  with Start_cases [OF b] t n False show ?thesis
    by (cases r) (simp_all add: left_def since_def)
qed

lemma Stop_run:
  "Stop s = (Ok (), s\<lparr>trace := trace s @ [CtxCancel, MuLock, WgWait, MuUnlock], ctxDone := True\<rparr>)"
  by (simp add: Stop_def andThen_def cancel_def emit_def deferring_def)

lemma Start_returns:
  assumes "Start env c sched s = (Ok x, s')"
  shows "\<exists>ext. trace s' = trace s @ ext
           \<and> filter is_Notify ext =
               (if ctxDone s then [Notify StateClosed] else [Notify StateRun, Notify StateClosed])
           \<and> ctxDone s'"
proof (cases "ctxDone s")
  case True
  from Start_closed [OF True, of env c sched] assms True show ?thesis
    by (auto simp: left_def)
next
  case False
  from Start_open [OF False, of env c sched] obtain r s1 ext where
    b: "Start_body env c sched (entered s) = (r, s1)"
    and t: "trace s1 = trace s @ [MuLock, WgAdd, Log Info ''start'', Notify StateRun] @ ext"
    and e: "\<forall>a \<in> set ext. listen_action a" by blast
  have n: "filter is_Notify ext = []"
    using e listen_no_Notify by (auto simp: filter_empty_conv)
  from Start_cases [OF b] assms t n False show ?thesis
    by (cases r) (auto simp: left_def)
qed

lemma count_list_Notify:
  "is_Notify a \<Longrightarrow> count_list xs a = count_list (filter is_Notify xs) a"
  by (induction xs) auto

lemma lifecycle_counts:
  assumes "lifecycle env c calls s = (Ok (), s')"
  shows "\<exists>ext. trace s' = trace s @ ext
           \<and> count_list ext (Notify StateClosed) = length (filter is_CallStart calls)
           \<and> count_list ext (Notify StateRun) \<le> (if ctxDone s then 0 else 1)"
  using assms
proof (induction calls arbitrary: s)
  case Nil
  then show ?case by (simp add: ret_def)
next
  case (Cons call rest)
  show ?case
  proof (cases call)
    case (CallStart sched)
    obtain r s1 where st: "Start env c sched s = (r, s1)" by (cases "Start env c sched s")
    with Cons.prems CallStart obtain x where x: "r = Ok x"
      by (cases r) (simp_all add: andThen_def)
    with Cons.prems CallStart st have l: "lifecycle env c rest s1 = (Ok (), s')"
      by (simp add: andThen_def)
    from Start_returns [OF st [unfolded x]] obtain e1 where
      e1: "trace s1 = trace s @ e1"
        "filter is_Notify e1 =
           (if ctxDone s then [Notify StateClosed] else [Notify StateRun, Notify StateClosed])"
        "ctxDone s1" by blast
    from Cons.IH [OF l] e1(3) obtain e2 where
      e2: "trace s' = trace s1 @ e2"
        "count_list e2 (Notify StateClosed) = length (filter is_CallStart rest)"
        "count_list e2 (Notify StateRun) = 0" by auto
    have c1: "count_list e1 (Notify StateClosed) = 1"
      "count_list e1 (Notify StateRun) = (if ctxDone s then 0 else 1)"
      using e1(2) by (simp_all add: count_list_Notify [of _ e1])
    show ?thesis
      using e1(1) e2 c1 CallStart
      by (intro exI [of _ "e1 @ e2"]) simp
  next
    case CallStop
    define s1 where "s1 = s\<lparr>trace := trace s @ [CtxCancel, MuLock, WgWait, MuUnlock], ctxDone := True\<rparr>"
    from Cons.prems CallStop have l: "lifecycle env c rest s1 = (Ok (), s')"
      by (simp add: andThen_def Stop_run s1_def)
    from Cons.IH [OF l] obtain e2 where
      e2: "trace s' = trace s1 @ e2"
        "count_list e2 (Notify StateClosed) = length (filter is_CallStart rest)"
        "count_list e2 (Notify StateRun) = 0" by (auto simp: s1_def)
    show ?thesis
      using e2 CallStop
      by (intro exI [of _ "[CtxCancel, MuLock, WgWait, MuUnlock] @ e2"]) (simp add: s1_def)
  qed
qed

text \<open>
  Claim C2, as the code has it. Every call of \<open>Start\<close> that returns notifies
  \<open>StateClosed\<close> exactly once, as its last notification, and leaves the context
  cancelled; it notifies \<open>StateRun\<close>, once and before that \<open>StateClosed\<close>, only when
  it found the context not cancelled. So over a lifecycle of calls that all return,
  \<open>StateClosed\<close> is notified once for each call of \<open>Start\<close> and \<open>StateRun\<close> at most
  once: a \<open>Start\<close> after the Consumer was closed notifies \<open>StateClosed\<close> again,
  with no \<open>StateRun\<close>.
\<close>

theorem Closed_once_per_Start:
  "(fst (Start env c sched s) \<noteq> Blocked \<longrightarrow>
      filter is_Notify (since s (snd (Start env c sched s))) =
        (if ctxDone s then [Notify StateClosed] else [Notify StateRun, Notify StateClosed])
      \<and> ctxDone (snd (Start env c sched s)))
   \<and> (lifecycle env c calls t = (Ok (), t') \<longrightarrow>
        count_list (since t t') (Notify StateClosed) = length (filter is_CallStart calls)
        \<and> count_list (since t t') (Notify StateRun) \<le> (if ctxDone t then 0 else 1))"
proof (intro conjI impI)
  assume a: "fst (Start env c sched s) \<noteq> Blocked"
  from Start_notifications [OF a]
  show "filter is_Notify (since s (snd (Start env c sched s))) =
        (if ctxDone s then [Notify StateClosed] else [Notify StateRun, Notify StateClosed])"
    by blast
  from Start_notifications [OF a] show "ctxDone (snd (Start env c sched s))" by blast
next
  assume l: "lifecycle env c calls t = (Ok (), t')"
  from lifecycle_counts [OF l] obtain ext where
    e: "trace t' = trace t @ ext"
      "count_list ext (Notify StateClosed) = length (filter is_CallStart calls)"
      "count_list ext (Notify StateRun) \<le> (if ctxDone t then 0 else 1)" by blast
  then have s: "since t t' = ext" by (simp add: since_def)
  from e s show "count_list (since t t') (Notify StateClosed) = length (filter is_CallStart calls)"
    by simp
  from e s show "count_list (since t t') (Notify StateRun) \<le> (if ctxDone t then 0 else 1)"
    by simp
qed

theorem Closed_once_per_Start_witness:
  "fst (Start env_ok c0 [SelEvent (MessageEvent (msgT 10)), SelDone] s0) = Ok None
   \<and> filter is_Notify (since s0 (snd (Start env_ok c0 [SelEvent (MessageEvent (msgT 10)), SelDone] s0))) =
       [Notify StateRun, Notify StateClosed]
   \<and> fst (lifecycle env_ok c0 [CallStart [SelDone], CallStop, CallStart []] s0) = Ok ()
   \<and> count_list (trace (snd (lifecycle env_ok c0 [CallStart [SelDone], CallStop, CallStart []] s0)))
       (Notify StateClosed) = 2"
proof -
  have a: "fst (Start env_ok c0 [SelEvent (MessageEvent (msgT 10)), SelDone] s0) = Ok None"
    by (simp add: run_defs input_defs)
  obtain t' where l: "lifecycle env_ok c0 [CallStart [SelDone], CallStop, CallStart []] s0 = (Ok (), t')"
    by (simp add: run_defs input_defs)
  note t = Closed_once_per_Start [where env = env_ok and c = c0
      and sched = "[SelEvent (MessageEvent (msgT 10)), SelDone]" and s = s0
      and calls = "[CallStart [SelDone], CallStop, CallStart []]" and t = s0 and t' = t']
  have "\<not> ctxDone s0" by (simp add: s0_def)
  with t a have n: "filter is_Notify (since s0 (snd (Start env_ok c0 [SelEvent (MessageEvent (msgT 10)), SelDone] s0))) =
       [Notify StateRun, Notify StateClosed]"
    by simp
  from t l have "count_list (since s0 t') (Notify StateClosed) = 2" by simp
  then have "count_list (trace t') (Notify StateClosed) = 2" by (simp add: since_def s0_def)
  with a n l show ?thesis by simp
qed

text \<open>
  The claim as the spec words it fails on a second \<open>Start\<close> after close, where
  \<open>StateClosed\<close> is notified a second time, and on a \<open>Start\<close> after \<open>Stop\<close>, where
  \<open>StateClosed\<close> is notified although \<open>StateRun\<close> never was.
\<close>

theorem Closed_notified_twice:
  "fst (lifecycle env_ok c0 [CallStart [SelDone], CallStart []] s0) = Ok ()
   \<and> filter is_Notify (trace (snd (lifecycle env_ok c0 [CallStart [SelDone], CallStart []] s0))) =
       [Notify StateRun, Notify StateClosed, Notify StateClosed]
   \<and> fst (lifecycle env_ok c0 [CallStop, CallStart []] s0) = Ok ()
   \<and> filter is_Notify (trace (snd (lifecycle env_ok c0 [CallStop, CallStart []] s0))) =
       [Notify StateClosed]"
  by (simp add: run_defs input_defs)













end
